theory Spec2Isabelle
  imports Main "HOL-Library.Word"
begin

section \<open>The writer side of the shared-memory stream (lib/utils/writer.js)\<close>

text \<open>
  The class \<^verbatim>\<open>Writable\<close> frames strings into a shared byte ring and coordinates with a
  single reader through six 32-bit words. The words \<^verbatim>\<open>WRITE_INDEX\<close>, \<^verbatim>\<open>WRITE_CYCLE\<close> and
  \<^verbatim>\<open>WRITE_PROCESS\<close> are stored by the writer only and are fields of the writer's state here.
  The words \<^verbatim>\<open>READ_INDEX\<close>, \<^verbatim>\<open>READ_CYCLE\<close> and \<^verbatim>\<open>READ_PROCESS\<close> are stored by the reader
  only: whatever the writer obtains from them (\<^verbatim>\<open>Atomics.load\<close>, \<^verbatim>\<open>Atomics.wait\<close>,
  \<^verbatim>\<open>Atomics.waitAsync\<close>) is an observation supplied by the environment, and every function
  takes the observations it makes as arguments, in program order. No assumption is made on
  them, so a result that holds for all observations holds for every reader and every
  interleaving.

  The source file holds two versions of the module, one after the other. The model follows
  the second, later one (the class with \<^verbatim>\<open>_store\<close>, \<^verbatim>\<open>_drain\<close>, \<^verbatim>\<open>_watch\<close> and the lifecycle
  signs); the first is an earlier draft of the same functions.
\<close>

subsection \<open>Bytes, payloads and the Buffer operations used\<close>

type_synonym byte = "8 word"

text \<open>
  A payload is a string of one-byte (ASCII) characters, given by its bytes. For such a string
  \<^verbatim>\<open>Buffer.byteLength\<close> is the length, \<^verbatim>\<open>String.prototype.slice\<close> cuts at byte offsets and
  \<^verbatim>\<open>Buffer.prototype.write\<close> copies the bytes. The value \<^verbatim>\<open>undefined\<close>, which \<^verbatim>\<open>Array.prototype.shift\<close>
  returns on an empty array, is \<open>None\<close>.
\<close>

type_synonym payload = "byte list"
type_synonym item = "payload option"

definition ascii :: "string \<Rightarrow> payload" where
  "ascii cs = map of_char cs"


datatype error =
    Overwritten | ReadFurther | TOO_LONG_READING
  | READER_EXIT_BEFORE_SYNC | READER_FAILED_TIMEOUT | READER_EXIT_AT_SYNC
  | FAILED_TO_FINISH_TIMEOUT | FAILED_TO_FINISH_READER | READER_EXIT_WHILE_WATCH
  | RangeError | TypeError

text \<open>
  \<^verbatim>\<open>buf.write(string, offset)\<close>: a \<^verbatim>\<open>RangeError\<close> unless \<open>0 \<le> offset \<le> buf.length\<close>; otherwise
  as many bytes as fit are copied and their number is returned.
\<close>

definition buf_write :: "byte list \<Rightarrow> payload \<Rightarrow> int \<Rightarrow> error + nat \<times> byte list" where
  "buf_write B data offset =
     (if offset < 0 \<or> int (length B) < offset then Inl RangeError
      else let n = min (length data) (length B - nat offset)
           in Inr (n, take (nat offset) B @ take n data @ drop (nat offset + n) B))"

text \<open>The four bytes of a 32-bit two's complement integer, least significant first.\<close>

definition le32 :: "int \<Rightarrow> byte list" where
  "le32 v = [word_of_int v, word_of_int (v div 2 ^ 8),
             word_of_int (v div 2 ^ 16), word_of_int (v div 2 ^ 24)]"

text \<open>
  \<^verbatim>\<open>buf.writeInt32LE(value, offset)\<close> and \<^verbatim>\<open>buf.writeUInt8(value, offset)\<close>: a \<^verbatim>\<open>RangeError\<close>
  when the value does not fit the type or the bytes do not lie inside the buffer.
\<close>

definition buf_writeInt32LE :: "byte list \<Rightarrow> int \<Rightarrow> int \<Rightarrow> error + byte list" where
  "buf_writeInt32LE B v offset =
     (if v < - (2 ^ 31) \<or> 2 ^ 31 - 1 < v then Inl RangeError
      else if offset < 0 \<or> int (length B) < offset + 4 then Inl RangeError
      else Inr (take (nat offset) B @ le32 v @ drop (nat offset + 4) B))"

definition buf_writeUInt8 :: "byte list \<Rightarrow> int \<Rightarrow> int \<Rightarrow> error + byte list" where
  "buf_writeUInt8 B v offset =
     (if v < 0 \<or> 255 < v then Inl RangeError
      else if offset < 0 \<or> int (length B) < offset + 1 then Inl RangeError
      else Inr (take (nat offset) B @ [word_of_int v] @ drop (nat offset + 1) B))"

text \<open>\<^verbatim>\<open>s.slice(0, n)\<close> and \<^verbatim>\<open>s.slice(n)\<close>; a negative index counts from the end.\<close>

definition slice_index :: "payload \<Rightarrow> int \<Rightarrow> nat" where
  "slice_index data n = (if n < 0 then nat (max (int (length data) + n) 0) else nat n)"

definition slice_to :: "payload \<Rightarrow> int \<Rightarrow> payload" where
  "slice_to data n = take (slice_index data n) data"

definition slice_from :: "payload \<Rightarrow> int \<Rightarrow> payload" where
  "slice_from data n = drop (slice_index data n) data"

text \<open>\<^verbatim>\<open>Atomics.store\<close> on an \<^verbatim>\<open>Int32Array\<close> keeps the low 32 bits, read back signed.\<close>

definition to_int32 :: "int \<Rightarrow> int" where
  "to_int32 v = signed_take_bit 31 v"

subsection \<open>Configuration\<close>

text \<open>
  Modelled from the spec: the module \<^verbatim>\<open>./config\<close> is not part of the sources. The spec fixes
  \<^verbatim>\<open>PREFIX_SIZE = 4\<close> and names five lifecycle signs, "enumerated integer constants,
  identical on both sides". \<^verbatim>\<open>POSTFIX_SIZE\<close> is "a configured constant" and is a parameter
  of every function that uses it.
\<close>

definition PREFIX_SIZE :: int where
  "PREFIX_SIZE = 4"

datatype sign = EMPTY_SIGN | READY_SIGN | FINISHING_SIGN | FINISHED_SIGN | FAILED_SIGN

definition EXTRA_SPACE :: "int \<Rightarrow> int" where
  "EXTRA_SPACE POSTFIX_SIZE = PREFIX_SIZE + POSTFIX_SIZE"

definition READ_SPINS :: nat where
  "READ_SPINS = 10"

definition FINISH_SPINS :: nat where
  "FINISH_SPINS = 10"

subsection \<open>The state of a writer\<close>

text \<open>
  What leaves the writer, in program order: events handed to \<^verbatim>\<open>emit\<close>, calls of
  \<^verbatim>\<open>Atomics.notify\<close>, and the frames that stand in the ring when \<^verbatim>\<open>_store\<close> publishes their
  end in \<^verbatim>\<open>WRITE_INDEX\<close> (payload and split mark, as the bytes of the ring give them).
  Listeners are code of the caller; an emission is recorded and nothing else happens. In
  particular \<^verbatim>\<open>emit('error', err)\<close> is taken to find a listener: without one Node throws
  \<^verbatim>\<open>err\<close> from \<^verbatim>\<open>emit\<close>, before \<^verbatim>\<open>destroy\<close> has set \<^verbatim>\<open>_destroyed\<close>. So what \<^verbatim>\<open>destroy(err)\<close> does
  after that emission, the two flags and the \<^verbatim>\<open>'close'\<close> that follows an \<^verbatim>\<open>'error'\<close> in the log,
  is what it does for a writer with such a listener; \<^verbatim>\<open>destroy()\<close> with no error emits no
  \<^verbatim>\<open>'error'\<close> and does not depend on it.
\<close>

datatype event = Ready | Drain | Finish | Error error | Close

datatype slot = WRITE_INDEX_slot | WRITE_PROCESS_slot

datatype action = Emit event | Notify slot | Frame payload int

text \<open>
  Callbacks handed to the platform and not run yet: the reactions registered with \<^verbatim>\<open>then\<close> on
  the promise of an \<^verbatim>\<open>Atomics.waitAsync\<close>, and the one-shot listener that \<^verbatim>\<open>_watch\<close> arms
  with \<^verbatim>\<open>once('drain', ...)\<close>. The platform runs them later, as calls of their own.
\<close>

datatype callback = ThenDrain | ThenWatch | ThenSynchronize | OnceDrainEnd

text \<open>The two functions the property \<^verbatim>\<open>this.write\<close> is bound to.\<close>

datatype binding = BoundWrite | BoundFakeWrite

record writer =
  u_sharedBuffer :: "byte list"
  WRITE_INDEX :: int
  WRITE_CYCLE :: int
  WRITE_PROCESS :: sign
  u_extraBuffer :: "item list"
  u_process :: sign
  u_cycle :: int
  u_write :: int
  u_ready :: bool
  u_ended :: bool
  u_closed :: bool
  u_ending :: bool
  u_errored :: "error option"
  u_destroyed :: bool
  u_flashing :: bool
  u_finished :: bool
  u_needDrain :: bool
  u_watching :: bool
  write_bound :: binding
  callbacks :: "callback list"
  log :: "action list"

text \<open>
  A call returns a value, throws, or is still inside a blocking wait when the observations
  given to it end.
\<close>

datatype 'a outcome = Returned 'a | Threw error | Blocked

definition writable :: "writer \<Rightarrow> bool" where
  "writable s = (\<not> u_destroyed s \<and> \<not> u_ending s)"

subsection \<open>The ring framer: \<^verbatim>\<open>_store\<close>\<close>

text \<open>
  Modelled from the spec: the reader is not part of the sources. By the frame layout of the
  spec, \<open>[LEN : 4 bytes LE] [PAYLOAD : LEN bytes] [POST : POSTFIX_SIZE bytes] [NOT_FINAL : 1 byte]\<close>,
  a reader that is told a frame starts at an offset finds there a payload and a split mark.
\<close>

definition read_le32 :: "byte list \<Rightarrow> int" where
  "read_le32 bs = to_int32 (foldr (\<lambda>b v. uint b + 256 * v) bs 0)"

definition frame_at :: "int \<Rightarrow> byte list \<Rightarrow> int \<Rightarrow> payload \<times> int" where
  "frame_at POSTFIX_SIZE B offset =
     (let len = read_le32 (take 4 (drop (nat offset) B))
      in (take (nat len) (drop (nat (offset + PREFIX_SIZE)) B),
          case drop (nat (offset + PREFIX_SIZE + len + POSTFIX_SIZE)) B of
            [] \<Rightarrow> 0
          | b # _ \<Rightarrow> uint b))"

text \<open>
  \<^verbatim>\<open>_store(data, isNotFin)\<close>. The entry it leaves in the log is read back from the ring at the
  moment \<^verbatim>\<open>WRITE_INDEX\<close> is stored: the frame that the reader finds at the old cursor.
\<close>

definition u_store :: "int \<Rightarrow> payload \<Rightarrow> int \<Rightarrow> writer \<Rightarrow> unit outcome \<times> writer" where
  "u_store POSTFIX_SIZE data isNotFin s =
     (case buf_write (u_sharedBuffer s) data (u_write s + PREFIX_SIZE) of
        Inl e \<Rightarrow> (Threw e, s)
      | Inr (written, B1) \<Rightarrow>
          (case buf_writeInt32LE B1 (int written) (u_write s) of
             Inl e \<Rightarrow> (Threw e, s\<lparr>u_sharedBuffer := B1\<rparr>)
           | Inr B2 \<Rightarrow>
               (case buf_writeUInt8 B2 isNotFin
                       (u_write s + int written + EXTRA_SPACE POSTFIX_SIZE) of
                  Inl e \<Rightarrow> (Threw e, s\<lparr>u_sharedBuffer := B2\<rparr>)
                | Inr B3 \<Rightarrow>
                    (let w = u_write s + (PREFIX_SIZE + int written + POSTFIX_SIZE + 1)
                     in (Returned (),
                         s\<lparr>u_sharedBuffer := B3, u_write := w, WRITE_INDEX := to_int32 w,
                           log := log s @ [(case frame_at POSTFIX_SIZE B3 (u_write s) of
                                             (d, f) \<Rightarrow> Frame d f),
                                           Notify WRITE_INDEX_slot]\<rparr>)))))"

subsection \<open>The write engine: \<^verbatim>\<open>Write\<close> and \<^verbatim>\<open>FakeWrite\<close>\<close>

text \<open>
  What one invocation of \<^verbatim>\<open>Write\<close> observes: the two loads; for a blocking write, how many
  calls of \<^verbatim>\<open>Atomics.wait\<close> in a row time out before one returns otherwise; for an
  asynchronous write, whether \<^verbatim>\<open>Atomics.waitAsync\<close> answers \<^verbatim>\<open>async: false\<close> because
  \<^verbatim>\<open>READ_INDEX\<close> has moved since the load.
\<close>

record obs =
  READ_INDEX :: int
  READ_CYCLE :: int
  timed_out :: nat
  not_async :: bool

definition FakeWrite :: "item \<Rightarrow> writer \<Rightarrow> bool outcome \<times> writer" where
  "FakeWrite data s = (Returned True, s\<lparr>u_extraBuffer := u_extraBuffer s @ [data]\<rparr>)"

text \<open>
  The \<^verbatim>\<open>do ... while (status === 'timed-out')\<close> loop of the blocking branch: \<open>True\<close> when it
  is left normally, \<open>False\<close> when \<^verbatim>\<open>++spins === READ_SPINS\<close> throws.
\<close>

fun read_spin :: "nat \<Rightarrow> nat \<Rightarrow> bool" where
  "read_spin 0 spins = (Suc spins \<noteq> READ_SPINS)"
| "read_spin (Suc t) spins = (if Suc spins = READ_SPINS then False else read_spin t (Suc spins))"

text \<open>The wrap: the cursor returns to 0 and \<^verbatim>\<open>this._cycle++\<close> is stored in \<^verbatim>\<open>WRITE_CYCLE\<close>.\<close>

definition wrap :: "writer \<Rightarrow> writer" where
  "wrap s = s\<lparr>u_write := 0, WRITE_INDEX := to_int32 0, WRITE_CYCLE := to_int32 (u_cycle s),
              u_cycle := u_cycle s + 1, log := log s @ [Notify WRITE_INDEX_slot]\<rparr>"

fun Write :: "int \<Rightarrow> obs list \<Rightarrow> bool \<Rightarrow> item \<Rightarrow> writer \<Rightarrow> bool outcome \<times> writer \<times> obs list" where
  "Write POSTFIX_SIZE [] sync toWrite s =
     (if \<not> writable s then (Returned False, s, []) else (Blocked, s, []))"
| "Write POSTFIX_SIZE (ob # os) sync toWrite s =
     (if \<not> writable s then (Returned False, s, ob # os)
      else
        let read = READ_INDEX ob;
            cycle = READ_CYCLE ob;
            isBehind = (read > u_write s \<or> cycle < u_cycle s);
            leftover0 = (if isBehind then read else int (length (u_sharedBuffer s))) - u_write s
        in
          if leftover0 < 0 then (Threw Overwritten, s, os)
          else if cycle > u_cycle s then (Threw ReadFurther, s, os)
          else
            let leftover = leftover0 - (EXTRA_SPACE POSTFIX_SIZE + 1) in
              if leftover \<le> 0 \<and> isBehind then
                (if sync then
                   (if read_spin (timed_out ob) 0 then Write POSTFIX_SIZE os False toWrite s
                    else (Threw TOO_LONG_READING, s, os))
                 else if not_async ob then Write POSTFIX_SIZE os sync toWrite s
                 else
                   (case FakeWrite toWrite
                           (s\<lparr>callbacks := callbacks s @ [ThenDrain],
                              write_bound := BoundFakeWrite, u_needDrain := True\<rparr>) of
                      (r, s') \<Rightarrow> (r, s', os)))
              else if leftover \<le> 0 \<and> \<not> isBehind then
                Write POSTFIX_SIZE os sync toWrite (wrap s)
              else
                (case toWrite of
                   None \<Rightarrow> (Threw TypeError, s, os)
                 | Some data \<Rightarrow>
                     if leftover < int (length data) + EXTRA_SPACE POSTFIX_SIZE then
                       (case u_store POSTFIX_SIZE (slice_to data leftover) 1 s of
                          (Returned _, s') \<Rightarrow>
                            Write POSTFIX_SIZE os sync (Some (slice_from data leftover)) s'
                        | (Threw e, s') \<Rightarrow> (Threw e, s', os)
                        | (Blocked, s') \<Rightarrow> (Blocked, s', os))
                     else
                       (case u_store POSTFIX_SIZE data 0 s of
                          (Returned _, s') \<Rightarrow> (Returned False, s', os)
                        | (Threw e, s') \<Rightarrow> (Threw e, s', os)
                        | (Blocked, s') \<Rightarrow> (Blocked, s', os))))"

text \<open>
  The public entries: a call of \<^verbatim>\<open>this.write\<close> runs whatever the property is bound to,
  \<^verbatim>\<open>this.writeSync\<close> is \<^verbatim>\<open>Write.bind(this, true)\<close> for good.
\<close>

definition write_entry :: "int \<Rightarrow> obs list \<Rightarrow> item \<Rightarrow> writer \<Rightarrow> bool outcome \<times> writer \<times> obs list" where
  "write_entry POSTFIX_SIZE os data s =
     (case write_bound s of
        BoundWrite \<Rightarrow> Write POSTFIX_SIZE os False data s
      | BoundFakeWrite \<Rightarrow> (case FakeWrite data s of (r, s') \<Rightarrow> (r, s', os)))"

definition writeSync :: "int \<Rightarrow> obs list \<Rightarrow> item \<Rightarrow> writer \<Rightarrow> bool outcome \<times> writer \<times> obs list" where
  "writeSync POSTFIX_SIZE os data s = Write POSTFIX_SIZE os True data s"

subsection \<open>Draining the overflow queue: \<^verbatim>\<open>_drain\<close>\<close>

lemma Write_False_extraBuffer:
  "Write POSTFIX_SIZE os sync toWrite s = (Returned False, s', os') \<Longrightarrow>
   u_extraBuffer s' = u_extraBuffer s"
proof (induction os arbitrary: sync toWrite s)
  case Nil
  then show ?case by (simp split: if_splits)
next
  case (Cons ob os)
  show ?case
  proof (cases "writable s")
    case False
    with Cons.prems show ?thesis by simp
  next
    case True
    with Cons.prems show ?thesis
      by (auto simp: Let_def FakeWrite_def wrap_def u_store_def
               split: if_splits option.splits prod.splits outcome.splits sum.splits
               dest!: Cons.IH)
  qed
qed

function u_drain :: "int \<Rightarrow> obs list \<Rightarrow> writer \<Rightarrow> bool outcome \<times> writer \<times> obs list" where
  "u_drain POSTFIX_SIZE os s =
     (let item = (case u_extraBuffer s of [] \<Rightarrow> None | x # _ \<Rightarrow> x);
          s0 = s\<lparr>u_extraBuffer := tl (u_extraBuffer s)\<rparr>
      in case Write POSTFIX_SIZE os False item s0 of
           (Returned status, s1, os1) \<Rightarrow>
             if status then (Returned False, s1, os1)
             else if u_extraBuffer s1 \<noteq> [] then u_drain POSTFIX_SIZE os1 s1
             else (Returned True,
                   s1\<lparr>write_bound := BoundWrite, u_needDrain := False,
                      log := log s1 @ [Emit Drain]\<rparr>, os1)
         | (Threw e, s1, os1) \<Rightarrow> (Threw e, s1, os1)
         | (Blocked, s1, os1) \<Rightarrow> (Blocked, s1, os1))"
  by pat_completeness auto
termination
proof (relation "measure (\<lambda>(POSTFIX_SIZE, os, s). length (u_extraBuffer s))")
  show "wf (measure (\<lambda>(POSTFIX_SIZE, os, s). length (u_extraBuffer s)))"
    by simp
next
  fix POSTFIX_SIZE :: int and os :: "obs list" and s :: writer
    and item s0 x1 x2 s1 os1 and status :: bool
  assume item: "item = (case u_extraBuffer s of [] \<Rightarrow> None | x # xa \<Rightarrow> x)"
    and s0: "s0 = s\<lparr>u_extraBuffer := tl (u_extraBuffer s)\<rparr>"
    and w: "(x1, x2) = Write POSTFIX_SIZE os False item s0"
    and x2: "(s1, os1) = x2"
    and x1: "x1 = Returned status"
    and st: "\<not> status"
    and ne: "u_extraBuffer s1 \<noteq> []"
  from w x2 x1 st have "Write POSTFIX_SIZE os False item s0 = (Returned False, s1, os1)"
    by (metis (full_types))
  then have "u_extraBuffer s1 = u_extraBuffer s0"
    by (rule Write_False_extraBuffer)
  with s0 ne have "u_extraBuffer s1 = tl (u_extraBuffer s)" "tl (u_extraBuffer s) \<noteq> []"
    by simp_all
  then show "((POSTFIX_SIZE, os1, s1), (POSTFIX_SIZE, os, s))
             \<in> measure (\<lambda>(POSTFIX_SIZE, os, s). length (u_extraBuffer s))"
    by (cases "u_extraBuffer s") simp_all
qed

declare u_drain.simps [simp del]

subsection \<open>The lifecycle: \<^verbatim>\<open>destroy\<close>, \<^verbatim>\<open>end\<close>, \<^verbatim>\<open>synchronize\<close>, \<^verbatim>\<open>_watch\<close>\<close>

text \<open>
  \<^verbatim>\<open>destroy(err)\<close>; \<open>readStatus\<close> is the value it loads from \<^verbatim>\<open>READ_PROCESS\<close>. An \<^verbatim>\<open>Error\<close>
  object is truthy, an absent argument is not.
\<close>

definition destroy :: "error option \<Rightarrow> sign \<Rightarrow> writer \<Rightarrow> writer" where
  "destroy err readStatus s =
     (if \<not> writable s then s
      else
        let s1 = s\<lparr>u_watching := False\<rparr>;
            writeStatus = WRITE_PROCESS s1;
            writeActive = (writeStatus = READY_SIGN \<or> writeStatus = EMPTY_SIGN);
            readActive = (readStatus = READY_SIGN \<or> readStatus = EMPTY_SIGN);
            s2 = (if writeActive \<and> readActive
                  then s1\<lparr>WRITE_PROCESS := (if err \<noteq> None then FAILED_SIGN else FINISHED_SIGN),
                          log := log s1 @ [Notify WRITE_PROCESS_slot]\<rparr>
                  else s1);
            s3 = (case err of
                    Some e \<Rightarrow> s2\<lparr>u_errored := Some e, log := log s2 @ [Emit (Error e)]\<rparr>
                  | None \<Rightarrow> s2)
        in s3\<lparr>u_destroyed := True, u_closed := True, log := log s3 @ [Emit Close]\<rparr>)"

text \<open>
  The spin loop of \<^verbatim>\<open>end\<close>. \<open>loads\<close> are the values of \<^verbatim>\<open>READ_PROCESS\<close> that the successive
  loads inside the loop return, each after its \<^verbatim>\<open>Atomics.wait\<close>; the result is the status the
  loop is left with, or \<open>None\<close> when the loop is still waiting after the last of them.
\<close>

fun end_spin :: "sign list \<Rightarrow> nat \<Rightarrow> sign \<Rightarrow> sign option" where
  "end_spin loads spins status =
     (if status \<noteq> FAILED_SIGN \<or> status \<noteq> FINISHED_SIGN then
        (case loads of
           [] \<Rightarrow> None
         | st # rest \<Rightarrow> if Suc spins = FINISH_SPINS then Some st else end_spin rest (Suc spins) st)
      else Some status)"

declare end_spin.simps [simp del]

text \<open>
  \<^verbatim>\<open>end()\<close>; \<open>status0\<close> is the first load of \<^verbatim>\<open>READ_PROCESS\<close> (the \<^verbatim>\<open>origin\<close>), \<open>loads\<close> those
  of the loop, \<open>readStatus\<close> the load inside \<^verbatim>\<open>destroy\<close>.
\<close>

definition end_w :: "sign \<Rightarrow> sign list \<Rightarrow> sign \<Rightarrow> writer \<Rightarrow> unit outcome \<times> writer" where
  "end_w status0 loads readStatus s =
     (if \<not> writable s then (Returned (), s)
      else
        let s1 = s\<lparr>u_process := FINISHING_SIGN, u_watching := False, u_ending := True\<rparr>;
            s2 = (if status0 = READY_SIGN \<or> status0 = EMPTY_SIGN \<or> status0 = FINISHING_SIGN
                  then s1\<lparr>WRITE_PROCESS := FINISHING_SIGN,
                          log := log s1 @ [Notify WRITE_PROCESS_slot]\<rparr>
                  else s1);
            origin = status0
        in case end_spin loads 0 status0 of
             None \<Rightarrow> (Blocked, s2)
           | Some status \<Rightarrow>
               if status = FAILED_SIGN \<or> status = origin then
                 (let s3 = s2\<lparr>u_ending := False\<rparr>
                  in if status = origin
                     then (Returned (), destroy (Some FAILED_TO_FINISH_TIMEOUT) readStatus s3)
                     else (Returned (), destroy (Some FAILED_TO_FINISH_READER) readStatus s3))
               else
                 (Returned (),
                  s2\<lparr>WRITE_PROCESS := FINISHED_SIGN, u_process := FINISHED_SIGN,
                     u_finished := True, u_ended := True,
                     log := log s2 @ [Notify WRITE_PROCESS_slot, Emit Finish]\<rparr>))"

text \<open>The three results of \<^verbatim>\<open>Atomics.wait\<close>, and what \<^verbatim>\<open>Atomics.waitAsync\<close> answers.\<close>

datatype wait_result = Ok | NotEqual | TimedOut

datatype wait_async = Settled wait_result | Pending

text \<open>
  What one invocation of \<^verbatim>\<open>_watch\<close> observes: its load of \<^verbatim>\<open>READ_PROCESS\<close>, what a call of
  \<^verbatim>\<open>end\<close> or \<^verbatim>\<open>destroy\<close> made from it loads, and whether \<^verbatim>\<open>Atomics.waitAsync\<close> answers
  \<^verbatim>\<open>async: true\<close>.
\<close>

record watch_obs =
  watch_status :: sign
  end_status :: sign
  end_loads :: "sign list"
  destroy_status :: sign
  watch_async :: bool

fun u_watch :: "watch_obs list \<Rightarrow> writer \<Rightarrow> unit outcome \<times> writer" where
  "u_watch [] s = (if \<not> u_watching s then (Returned (), s) else (Blocked, s))"
| "u_watch (ob # obs) s =
     (if \<not> u_watching s then (Returned (), s)
      else
        let status = watch_status ob in
          if status = FINISHING_SIGN \<and> u_extraBuffer s = [] then
            end_w (end_status ob) (end_loads ob) (destroy_status ob) s
          else
            let s1 = (if status = FINISHING_SIGN
                      then s\<lparr>callbacks := callbacks s @ [OnceDrainEnd]\<rparr> else s)
            in if status = FAILED_SIGN \<or> status = FINISHED_SIGN then
                 (Returned (), destroy (Some READER_EXIT_WHILE_WATCH) (destroy_status ob) s1)
               else if \<not> watch_async ob then u_watch obs s1
               else (Returned (), s1\<lparr>callbacks := callbacks s1 @ [ThenWatch]\<rparr>))"

text \<open>
  \<^verbatim>\<open>synchronize()\<close>; \<open>status\<close> is its load of \<^verbatim>\<open>READ_PROCESS\<close>, \<open>result\<close> the answer of
  \<^verbatim>\<open>Atomics.waitAsync\<close>, \<open>readStatus\<close> the load inside \<^verbatim>\<open>destroy\<close>. The class has no method
  \<^verbatim>\<open>_synchronize\<close>, so the call of it is a \<^verbatim>\<open>TypeError\<close>.
\<close>

definition synchronize :: "sign \<Rightarrow> wait_async \<Rightarrow> sign \<Rightarrow> writer \<Rightarrow> unit outcome \<times> writer" where
  "synchronize status result readStatus s =
     (let s1 = s\<lparr>u_process := READY_SIGN, WRITE_PROCESS := READY_SIGN\<rparr>
      in if status = READY_SIGN then
           (Returned (), s1\<lparr>u_ready := True, log := log s1 @ [Emit Ready]\<rparr>)
         else if status \<noteq> EMPTY_SIGN then
           (Returned (), destroy (Some READER_EXIT_BEFORE_SYNC) readStatus s1)
         else
           (case result of
              Settled v \<Rightarrow>
                if v = NotEqual then (Threw TypeError, s1)
                else (Returned (), destroy (Some READER_FAILED_TIMEOUT) readStatus s1)
            | Pending \<Rightarrow> (Returned (), s1\<lparr>callbacks := callbacks s1 @ [ThenSynchronize]\<rparr>)))"

text \<open>
  The reaction \<^verbatim>\<open>v => {...}\<close> that \<^verbatim>\<open>synchronize\<close> registers on the promise; \<open>v\<close> is the value
  the promise resolves to, \<open>status\<close> the load, \<open>obs\<close> what the call of \<^verbatim>\<open>_watch\<close> observes.
\<close>

definition synchronize_then ::
  "wait_result \<Rightarrow> sign \<Rightarrow> sign \<Rightarrow> watch_obs list \<Rightarrow> writer \<Rightarrow> unit outcome \<times> writer" where
  "synchronize_then v status readStatus obs s =
     (if v \<noteq> Ok then (Returned (), destroy (Some READER_FAILED_TIMEOUT) readStatus s)
      else if status \<noteq> READY_SIGN then
        (Returned (), destroy (Some READER_EXIT_AT_SYNC) readStatus s)
      else
        (let s1 = s\<lparr>u_watching := True, u_ready := True\<rparr>
         in u_watch obs (s1\<lparr>log := log s1 @ [Emit Ready]\<rparr>)))"

subsection \<open>Calls on a writer, one after the other\<close>

text \<open>
  Everything that can run on a writer: the public methods, called by the application, and the
  callbacks that the platform runs. Each carries the observations that the call makes.
\<close>

datatype call =
    Call_write "obs list" item
  | Call_writeSync "obs list" item
  | Call_drain "obs list"
  | Call_end sign "sign list" sign
  | Call_destroy "error option" sign
  | Call_synchronize sign wait_async sign
  | Call_synchronize_then wait_result sign sign "watch_obs list"
  | Call_watch "watch_obs list"

fun after_call :: "int \<Rightarrow> writer \<Rightarrow> call \<Rightarrow> writer" where
  "after_call POSTFIX_SIZE s (Call_write os data) = fst (snd (write_entry POSTFIX_SIZE os data s))"
| "after_call POSTFIX_SIZE s (Call_writeSync os data) = fst (snd (writeSync POSTFIX_SIZE os data s))"
| "after_call POSTFIX_SIZE s (Call_drain os) = fst (snd (u_drain POSTFIX_SIZE os s))"
| "after_call POSTFIX_SIZE s (Call_end status0 loads readStatus) =
     snd (end_w status0 loads readStatus s)"
| "after_call POSTFIX_SIZE s (Call_destroy err readStatus) = destroy err readStatus s"
| "after_call POSTFIX_SIZE s (Call_synchronize status result readStatus) =
     snd (synchronize status result readStatus s)"
| "after_call POSTFIX_SIZE s (Call_synchronize_then v status readStatus obs) =
     snd (synchronize_then v status readStatus obs s)"
| "after_call POSTFIX_SIZE s (Call_watch obs) = snd (u_watch obs s)"

definition after_calls :: "int \<Rightarrow> call list \<Rightarrow> writer \<Rightarrow> writer" where
  "after_calls POSTFIX_SIZE cs s = foldl (after_call POSTFIX_SIZE) s cs"

text \<open>The events emitted so far, the frames published so far, and how many \<^verbatim>\<open>'drain'\<close> events.\<close>

definition emitted :: "writer \<Rightarrow> event list" where
  "emitted s = concat (map (\<lambda>a. case a of Emit e \<Rightarrow> [e] | _ \<Rightarrow> []) (log s))"

definition frames :: "writer \<Rightarrow> (payload \<times> int) list" where
  "frames s = concat (map (\<lambda>a. case a of Frame d f \<Rightarrow> [(d, f)] | _ \<Rightarrow> []) (log s))"

definition drains :: "writer \<Rightarrow> nat" where
  "drains s = length (filter (\<lambda>e. e = Drain) (emitted s))"

text \<open>
  A writer as the constructor leaves it, over a given byte region and a zeroed state region:
  the field initialisers of the class, and \<^verbatim>\<open>this.write = Write.bind(this, false)\<close>.
\<close>

definition new_Writable :: "byte list \<Rightarrow> writer" where
  "new_Writable sharedBuffer =
     \<lparr>u_sharedBuffer = sharedBuffer, WRITE_INDEX = 0, WRITE_CYCLE = 0, WRITE_PROCESS = EMPTY_SIGN,
      u_extraBuffer = [], u_process = EMPTY_SIGN, u_cycle = 0, u_write = 0,
      u_ready = False, u_ended = False, u_closed = False, u_ending = False, u_errored = None,
      u_destroyed = False, u_flashing = False, u_finished = False, u_needDrain = False,
      u_watching = False, write_bound = BoundWrite, callbacks = [], log = []\<rparr>"

text \<open>An observation of \<^verbatim>\<open>READ_INDEX\<close> and \<^verbatim>\<open>READ_CYCLE\<close> by a call that does not wait.\<close>

definition seen :: "int \<Rightarrow> int \<Rightarrow> obs" where
  "seen read cycle = \<lparr>READ_INDEX = read, READ_CYCLE = cycle, timed_out = 0, not_async = False\<rparr>"





text \<open>Successive calls of \<^verbatim>\<open>this.write\<close>.\<close>

definition writes :: "(obs list \<times> item) list \<Rightarrow> call list" where
  "writes ws = map (\<lambda>(os, data). Call_write os data) ws"

text \<open>
  A writer over a ring of 16 bytes whose reader has not moved: the first write leaves a frame
  of ten bytes, wraps and meets the reader; it and the two writes after it are queued.
\<close>

definition stalled :: writer where
  "stalled =
     after_calls 0
       [Call_write [seen 0 0, seen 0 0, seen 0 0] (Some (ascii ''hello worl'')),
        Call_write [] (Some (ascii ''AAAAAAAAAA'')),
        Call_write [] (Some (ascii ''B''))]
       (new_Writable (replicate 16 0))"

text \<open>The same writer after the first of these writes.\<close>

definition held :: writer where
  "held =
     after_calls 0 [Call_write [seen 0 0, seen 0 0, seen 0 0] (Some (ascii ''hello worl''))]
       (new_Writable (replicate 16 0))"

text \<open>A writer whose orderly end has succeeded: the reader was seen to finish.\<close>

definition finished_writer :: writer where
  "finished_writer =
     snd (end_w READY_SIGN
            [FINISHED_SIGN, FINISHED_SIGN, FINISHED_SIGN, FINISHED_SIGN, FINISHED_SIGN,
             FINISHED_SIGN, FINISHED_SIGN, FINISHED_SIGN, FINISHED_SIGN, FINISHED_SIGN]
            READY_SIGN (new_Writable []))"

section \<open>Properties\<close>

text \<open>The definitions that the evaluation of a call on a given writer unfolds.\<close>

lemmas eval_defs =
  after_calls_def write_entry_def writeSync_def new_Writable_def seen_def writable_def Let_def
  EXTRA_SPACE_def PREFIX_SIZE_def ascii_def u_store_def buf_write_def buf_writeInt32LE_def
  buf_writeUInt8_def slice_to_def slice_from_def slice_index_def wrap_def FakeWrite_def
  to_int32_def le32_def emitted_def frames_def read_le32_def frame_at_def

subsection \<open>The layout of a frame\<close>

lemma length_le32 [simp]: "length (le32 v) = 4"
  by (simp add: le32_def)

lemma read_le32_le32:
  assumes "0 \<le> n" "n < 2 ^ 31"
  shows "read_le32 (le32 n) = n"
proof -
  define a where "a = n div 256"
  define b where "b = a div 256"
  define c where "c = b div 256"
  have u: "uint (word_of_int k :: byte) = k mod 256" for k
    by (simp add: uint_word_of_int take_bit_eq_mod)
  have d2: "n div 2 ^ 16 = b"
    unfolding b_def a_def by (simp add: div_mult2_eq [symmetric])
  have d3: "n div 2 ^ 24 = c"
    unfolding c_def b_def a_def by (simp add: div_mult2_eq [symmetric])
  have d1: "n div 2 ^ 8 = a" by (simp add: a_def)
  have "c < 256" "0 \<le> c" using assms d3 [symmetric] by simp_all
  then have top: "c mod 256 = c" by simp
  have s1: "n = n mod 256 + 256 * a" by (simp add: a_def)
  have s2: "a = a mod 256 + 256 * b" by (simp add: b_def)
  have s3: "b = b mod 256 + 256 * c" by (simp add: c_def)
  have gen: "x + 256 * (y + 256 * (z + 256 * c)) = n"
    if "n = x + 256 * a" "a = y + 256 * b" "b = z + 256 * c" for x y z :: int
    using that by simp
  have sum: "n mod 256 + 256 * (a mod 256 + 256 * (b mod 256 + 256 * c)) = n"
    by (rule gen [OF s1 s2 s3])
  have st: "signed_take_bit 31 n = n"
    using assms by (simp add: signed_take_bit_int_eq_self)
  have "read_le32 (le32 n) =
        signed_take_bit 31 (n mod 256 + 256 * (a mod 256 + 256 * (b mod 256 + 256 * (c mod 256))))"
    unfolding read_le32_def to_int32_def le32_def d1 d2 d3 by (simp add: u)
  then show ?thesis by (simp only: top sum st)
qed

text \<open>A frame laid out at an offset is the frame that the reader finds there.\<close>

lemma frame_at_layout:
  assumes k: "length pre = k" and p: "length mid = p"
    and len: "int (length data) < 2 ^ 31"
    and nf: "0 \<le> isNotFin" "isNotFin \<le> 255"
  shows "frame_at (int p) (pre @ le32 (int (length data)) @ data @ mid @ [word_of_int isNotFin] @ post)
           (int k) = (data, isNotFin)"
proof -
  let ?R = "pre @ le32 (int (length data)) @ data @ mid @ [word_of_int isNotFin] @ post"
  have l: "take 4 (drop k ?R) = le32 (int (length data))"
    using k by simp
  have r: "read_le32 (take 4 (drop k ?R)) = int (length data)"
    unfolding l using len by (simp add: read_le32_le32)
  have d: "take (length data) (drop (k + 4) ?R) = data"
    using k by simp
  have m: "drop (k + 4 + length data + p) ?R = word_of_int isNotFin # post"
    using k p by simp
  have u: "uint (word_of_int isNotFin :: byte) = isNotFin"
    using nf by (simp add: uint_word_of_int take_bit_eq_mod)
  have o1: "nat (int k + PREFIX_SIZE) = k + 4"
    by (simp add: PREFIX_SIZE_def nat_add_distrib)
  have o2: "nat (int k + PREFIX_SIZE + int (length data) + int p) = k + 4 + length data + p"
    by (simp add: PREFIX_SIZE_def nat_add_distrib)
  show ?thesis
    unfolding frame_at_def Let_def nat_int r o1 o2 d m by (simp add: u)
qed

lemma u_store_layout:
  assumes w: "0 \<le> u_write s"
    and pf: "0 \<le> POSTFIX_SIZE"
    and fits: "u_write s + PREFIX_SIZE + int (length data) + POSTFIX_SIZE + 1
               \<le> int (length (u_sharedBuffer s))"
    and len: "int (length data) < 2 ^ 31"
    and nf: "0 \<le> isNotFin" "isNotFin \<le> 255"
  shows "u_store POSTFIX_SIZE data isNotFin s =
    (Returned (),
     s\<lparr>u_sharedBuffer :=
          take (nat (u_write s)) (u_sharedBuffer s) @ le32 (int (length data)) @ data
          @ take (nat POSTFIX_SIZE) (drop (nat (u_write s) + 4 + length data) (u_sharedBuffer s))
          @ [word_of_int isNotFin]
          @ drop (nat (u_write s) + 4 + length data + nat POSTFIX_SIZE + 1) (u_sharedBuffer s),
        u_write := u_write s + (PREFIX_SIZE + int (length data) + POSTFIX_SIZE + 1),
        WRITE_INDEX := to_int32 (u_write s + (PREFIX_SIZE + int (length data) + POSTFIX_SIZE + 1)),
        log := log s @ [Frame data isNotFin, Notify WRITE_INDEX_slot]\<rparr>)"
proof -
  define B where "B = u_sharedBuffer s"
  define k where "k = nat (u_write s)"
  define p where "p = nat POSTFIX_SIZE"
  have kw: "u_write s = int k" and pp: "POSTFIX_SIZE = int p"
    using w pf by (simp_all add: k_def p_def)
  have L: "k + 4 + length data + p + 1 \<le> length B"
    using fits unfolding kw pp B_def PREFIX_SIZE_def by linarith
  define B1 where "B1 = take (k + 4) B @ data @ drop (k + 4 + length data) B"
  have b1: "buf_write B data (u_write s + PREFIX_SIZE) = Inr (length data, B1)"
    using L by (auto simp: buf_write_def kw PREFIX_SIZE_def B1_def nat_add_distrib min_def Let_def)
  have lB1: "length B1 = length B" using L by (simp add: B1_def)
  define B2 where "B2 = take k B @ le32 (int (length data)) @ data @ drop (k + 4 + length data) B"
  have "take k B1 = take k B" using L by (simp add: B1_def)
  moreover have "drop (k + 4) B1 = data @ drop (k + 4 + length data) B"
    using L by (simp add: B1_def)
  ultimately have b2: "buf_writeInt32LE B1 (int (length data)) (u_write s) = Inr B2"
    using L len lB1 by (simp add: buf_writeInt32LE_def kw B2_def)
  have lB2: "length B2 = length B" using L by (simp add: B2_def)
  define n where "n = k + 4 + length data + p"
  have off: "u_write s + int (length data) + EXTRA_SPACE POSTFIX_SIZE = int n"
    by (simp add: kw pp EXTRA_SPACE_def PREFIX_SIZE_def n_def)
  have t: "take n B2 = take k B @ le32 (int (length data)) @ data @ take p (drop (k + 4 + length data) B)"
    using L by (simp add: B2_def n_def)
  have d: "drop (n + 1) B2 = drop (k + 4 + length data + p + 1) B"
  proof -
    have "drop (n + 1) B2 = drop (n + 1 - (k + 4 + length data)) (drop (k + 4 + length data) B)"
      using L by (simp add: B2_def n_def)
    also have "\<dots> = drop ((n + 1 - (k + 4 + length data)) + (k + 4 + length data)) B"
      by (simp only: drop_drop)
    also have "(n + 1 - (k + 4 + length data)) + (k + 4 + length data) = k + 4 + length data + p + 1"
      by (simp add: n_def)
    finally show ?thesis .
  qed
  have b3: "buf_writeUInt8 B2 isNotFin (int n) = Inr (take k B @ le32 (int (length data)) @ data @ take p (drop (k + 4 + length data) B) @ [word_of_int isNotFin] @ drop (k + 4 + length data + p + 1) B)"
  proof -
    have "n + 1 \<le> length B2" using L lB2 by (simp add: n_def)
    moreover have "drop (Suc n) B2 = drop (k + 4 + length data + p + 1) B"
      using d by simp
    ultimately show ?thesis using nf by (simp add: buf_writeUInt8_def t)
  qed
  define B3 where "B3 = take k B @ le32 (int (length data)) @ data @
               take p (drop (k + 4 + length data) B) @ [word_of_int isNotFin] @
               drop (k + 4 + length data + p + 1) B"
  have b3': "buf_writeUInt8 B2 isNotFin (int n) = Inr B3"
    unfolding B3_def by (rule b3)
  have fr: "frame_at POSTFIX_SIZE B3 (u_write s) = (data, isNotFin)"
    unfolding kw pp B3_def using L len nf by (intro frame_at_layout) simp_all
  have "u_store POSTFIX_SIZE data isNotFin s =
    (Returned (),
     s\<lparr>u_sharedBuffer := B3,
        u_write := u_write s + (PREFIX_SIZE + int (length data) + POSTFIX_SIZE + 1),
        WRITE_INDEX := to_int32 (u_write s + (PREFIX_SIZE + int (length data) + POSTFIX_SIZE + 1)),
        log := log s @ [Frame data isNotFin, Notify WRITE_INDEX_slot]\<rparr>)"
    unfolding u_store_def B_def[symmetric] b1
    by (simp add: b2 off b3' Let_def fr)
  then show ?thesis
    by (simp add: B3_def k_def p_def B_def)
qed

subsection \<open>A first write into an empty ring\<close>

text \<open>
  Claim C1. In a ring of 64 bytes with \<^verbatim>\<open>POSTFIX_SIZE = 0\<close>, with the cursor at 0 in cycle 0 and
  the reader seen at index 0 in cycle 0, \<^verbatim>\<open>writeSync("AB")\<close> returns \<^verbatim>\<open>false\<close> and leaves the
  length 2 in little-endian order in bytes 0 to 3, the payload in bytes 4 and 5, the split
  mark 0 in byte 6, \<^verbatim>\<open>WRITE_INDEX = 7\<close> and \<^verbatim>\<open>WRITE_CYCLE = 0\<close>.
\<close>

theorem C1_write_sync_AB:
  assumes B: "length (u_sharedBuffer s) = 64"
    and cur: "u_write s = 0" "u_cycle s = 0" "WRITE_CYCLE s = 0"
    and wr: "writable s"
    and rd: "READ_INDEX ob = 0" "READ_CYCLE ob = 0"
  shows "case writeSync 0 (ob # os) (Some (ascii ''AB'')) s of (r, s', os') \<Rightarrow>
           r = Returned False \<and> os' = os \<and>
           take 4 (u_sharedBuffer s') = [2, 0, 0, 0] \<and>
           take 2 (drop 4 (u_sharedBuffer s')) = ascii ''AB'' \<and>
           u_sharedBuffer s' ! 6 = 0 \<and>
           length (u_sharedBuffer s') = 64 \<and>
           WRITE_INDEX s' = 7 \<and> WRITE_CYCLE s' = 0 \<and> u_write s' = 7 \<and> u_cycle s' = 0"
proof -
  have st: "u_store 0 (ascii ''AB'') 0 s =
    (Returned (),
     s\<lparr>u_sharedBuffer := le32 2 @ ascii ''AB'' @ [0] @ drop 7 (u_sharedBuffer s),
        u_write := 7, WRITE_INDEX := to_int32 7,
        log := log s @ [Frame (ascii ''AB'') 0, Notify WRITE_INDEX_slot]\<rparr>)"
    using u_store_layout [of s 0 "ascii ''AB''" 0] B cur
    by (simp add: PREFIX_SIZE_def ascii_def)
  have w: "writeSync 0 (ob # os) (Some (ascii ''AB'')) s =
    (Returned False,
     s\<lparr>u_sharedBuffer := le32 2 @ ascii ''AB'' @ [0] @ drop 7 (u_sharedBuffer s),
        u_write := 7, WRITE_INDEX := to_int32 7,
        log := log s @ [Frame (ascii ''AB'') 0, Notify WRITE_INDEX_slot]\<rparr>, os)"
    using B cur wr rd
    by (simp add: writeSync_def Let_def EXTRA_SPACE_def PREFIX_SIZE_def st) (simp add: ascii_def)
  show ?thesis
    unfolding w using B cur by (simp add: le32_def ascii_def to_int32_def)
qed

theorem C1_write_sync_AB_witness:
  "case writeSync 0 [seen 0 0] (Some (ascii ''AB'')) (new_Writable (replicate 64 0)) of
     (r, s', os') \<Rightarrow>
       r = Returned False \<and> os' = [] \<and>
       take 4 (u_sharedBuffer s') = [2, 0, 0, 0] \<and>
       take 2 (drop 4 (u_sharedBuffer s')) = ascii ''AB'' \<and>
       u_sharedBuffer s' ! 6 = 0 \<and>
       length (u_sharedBuffer s') = 64 \<and>
       WRITE_INDEX s' = 7 \<and> WRITE_CYCLE s' = 0 \<and> u_write s' = 7 \<and> u_cycle s' = 0"
  using C1_write_sync_AB [of "new_Writable (replicate 64 0)" "seen 0 0" "[]"]
  by (simp add: new_Writable_def seen_def writable_def)

subsection \<open>Splitting a payload over several frames\<close>

text \<open>
  When \<^verbatim>\<open>_store\<close> returns, the whole slice is in the ring: a slice cut short by
  \<^verbatim>\<open>buf.write\<close> makes \<^verbatim>\<open>writeUInt8\<close> throw. The frame lies inside the buffer and starts at a
  cursor that is not negative.
\<close>

lemma frames_append: "frames (s\<lparr>log := log s @ l\<rparr>) = frames s @ concat (map (\<lambda>a. case a of Frame d f \<Rightarrow> [(d, f)] | _ \<Rightarrow> []) l)"
  by (simp add: frames_def)

lemma u_store_Returned:
  assumes st: "u_store POSTFIX_SIZE data isNotFin s = (Returned u, s')"
    and pf: "0 \<le> POSTFIX_SIZE"
  shows "log s' = log s @ [Frame data isNotFin, Notify WRITE_INDEX_slot]"
    and "writable s' = writable s"
    and "length (u_sharedBuffer s') = length (u_sharedBuffer s)"
    and "0 \<le> u_write s"
    and "u_write s + int (length data) + EXTRA_SPACE POSTFIX_SIZE + 1
         \<le> int (length (u_sharedBuffer s))"
    and "u_write s' = u_write s + (PREFIX_SIZE + int (length data) + POSTFIX_SIZE + 1)"
    and "u_extraBuffer s' = u_extraBuffer s"
proof -
  define B where "B = u_sharedBuffer s"
  from st obtain written B1 where
    b1: "buf_write B data (u_write s + PREFIX_SIZE) = Inr (written, B1)"
    by (auto simp: u_store_def B_def split: sum.splits)
  from st b1 obtain B2 where
    b2: "buf_writeInt32LE B1 (int written) (u_write s) = Inr B2"
    by (auto simp: u_store_def B_def split: sum.splits)
  from st b1 b2 obtain B3 where
    b3: "buf_writeUInt8 B2 isNotFin (u_write s + int written + EXTRA_SPACE POSTFIX_SIZE) = Inr B3"
    by (auto simp: u_store_def B_def split: sum.splits)
  from st b1 b2 b3 have s': "s' = s\<lparr>u_sharedBuffer := B3,
      u_write := u_write s + (PREFIX_SIZE + int written + POSTFIX_SIZE + 1),
      WRITE_INDEX := to_int32 (u_write s + (PREFIX_SIZE + int written + POSTFIX_SIZE + 1)),
      log := log s @ [(case frame_at POSTFIX_SIZE B3 (u_write s) of (d, f) \<Rightarrow> Frame d f),
                      Notify WRITE_INDEX_slot]\<rparr>"
    by (simp add: u_store_def B_def Let_def)
  from b1 have off: "0 \<le> u_write s + PREFIX_SIZE" "u_write s + PREFIX_SIZE \<le> int (length B)"
    and wr: "written = min (length data) (length B - nat (u_write s + PREFIX_SIZE))"
    and lB1: "length B1 = length B"
    by (auto simp: buf_write_def Let_def split: if_splits)
  from b2 have w0: "0 \<le> u_write s" and lB2: "length B2 = length B1"
    and small: "int written < 2 ^ 31"
    by (auto simp: buf_writeInt32LE_def split: if_splits)
  from b3 have fit: "u_write s + int written + EXTRA_SPACE POSTFIX_SIZE + 1 \<le> int (length B2)"
    and lB3: "length B3 = length B2"
    and nf: "0 \<le> isNotFin" "isNotFin \<le> 255"
    by (auto simp: buf_writeUInt8_def split: if_splits)
  have all: "written = length data"
  proof (rule ccontr)
    assume "written \<noteq> length data"
    with wr have "written = length B - nat (u_write s + PREFIX_SIZE)" by (simp add: min_def split: if_splits)
    with off have "int written = int (length B) - (u_write s + PREFIX_SIZE)" by simp
    with fit pf lB2 lB1 show False by (simp add: EXTRA_SPACE_def)
  qed
  have "u_write s + PREFIX_SIZE + int (length data) + POSTFIX_SIZE + 1
        \<le> int (length (u_sharedBuffer s))"
    using fit all lB2 lB1 by (simp add: B_def EXTRA_SPACE_def)
  from u_store_layout [OF w0 pf this small [unfolded all] nf] st
  show "log s' = log s @ [Frame data isNotFin, Notify WRITE_INDEX_slot]"
    by auto
  show "writable s' = writable s" by (simp add: s' writable_def)
  show "length (u_sharedBuffer s') = length (u_sharedBuffer s)"
    by (simp add: s' lB3 lB2 lB1 B_def)
  show "0 \<le> u_write s" by (rule w0)
  show "u_write s + int (length data) + EXTRA_SPACE POSTFIX_SIZE + 1
         \<le> int (length (u_sharedBuffer s))"
    using fit all lB2 lB1 by (simp add: B_def)
  show "u_write s' = u_write s + (PREFIX_SIZE + int (length data) + POSTFIX_SIZE + 1)"
    by (simp add: s' all)
  show "u_extraBuffer s' = u_extraBuffer s"
    by (simp add: s')
qed



lemma writable_wrap: "writable (wrap s) = writable s"
  by (simp add: writable_def wrap_def)

lemma length_buffer_wrap: "length (u_sharedBuffer (wrap s)) = length (u_sharedBuffer s)"
  by (simp add: wrap_def)









text \<open>
  In a ring shorter than the overhead of two frames no call stores a final frame while the
  reader is seen inside the ring: the test for a split, \<open>leftover < |payload| + EXTRA_SPACE\<close>,
  holds even for the empty payload.
\<close>

lemma Write_short_ring:
  assumes pf: "0 \<le> POSTFIX_SIZE"
    and short: "int (length (u_sharedBuffer s)) < 2 * EXTRA_SPACE POSTFIX_SIZE + 1"
    and wr: "writable s"
    and w0: "0 \<le> u_write s"
    and inside: "\<forall>ob \<in> set os. READ_INDEX ob \<le> int (length (u_sharedBuffer s))"
  shows "fst (Write POSTFIX_SIZE os sync (Some d) s) \<noteq> Returned False"
  using short wr w0 inside
proof (induction os arbitrary: sync d s)
  case Nil
  then show ?case by simp
next
  case (Cons ob os)
  define isBehind where "isBehind = (READ_INDEX ob > u_write s \<or> READ_CYCLE ob < u_cycle s)"
  define leftover where "leftover =
    (if isBehind then READ_INDEX ob else int (length (u_sharedBuffer s))) - u_write s
    - (EXTRA_SPACE POSTFIX_SIZE + 1)"
  note wr = Cons.prems(2)
  have rd: "READ_INDEX ob \<le> int (length (u_sharedBuffer s))"
    and rest: "\<forall>ob \<in> set os. READ_INDEX ob \<le> int (length (u_sharedBuffer s))"
    using Cons.prems(4) by simp_all
  have small: "leftover < EXTRA_SPACE POSTFIX_SIZE"
    using Cons.prems(1,3) rd by (simp add: leftover_def)
  show ?case
  proof
    assume "fst (Write POSTFIX_SIZE (ob # os) sync (Some d) s) = Returned False"
    then obtain s' os' where
      run: "Write POSTFIX_SIZE (ob # os) sync (Some d) s = (Returned False, s', os')"
      by (metis prod.collapse)
    show False
    proof (cases "leftover \<le> 0")
      case True
      show ?thesis
      proof (cases isBehind)
        case True
        with \<open>leftover \<le> 0\<close> wr run
        obtain sync' where "Write POSTFIX_SIZE os sync' (Some d) s = (Returned False, s', os')"
          unfolding isBehind_def leftover_def
          by (auto simp: Let_def FakeWrite_def split: if_splits)
        with Cons.IH [OF Cons.prems(1) wr Cons.prems(3) rest, of sync' d] show ?thesis by simp
      next
        case False
        with \<open>leftover \<le> 0\<close> wr run
        have "Write POSTFIX_SIZE os sync (Some d) (wrap s) = (Returned False, s', os')"
          unfolding isBehind_def leftover_def
          by (auto simp: Let_def split: if_splits)
        moreover have "fst (Write POSTFIX_SIZE os sync (Some d) (wrap s)) \<noteq> Returned False"
          using Cons.IH [of "wrap s" sync d] Cons.prems(1) wr rest
          by (simp add: writable_wrap length_buffer_wrap) (simp add: wrap_def)
        ultimately show ?thesis by simp
      qed
    next
      case False
      show ?thesis
      proof (cases "leftover < int (length d) + EXTRA_SPACE POSTFIX_SIZE")
        case True
        with \<open>\<not> leftover \<le> 0\<close> wr run
        obtain u s1 where st: "u_store POSTFIX_SIZE (slice_to d leftover) 1 s = (Returned u, s1)"
          and more: "Write POSTFIX_SIZE os sync (Some (slice_from d leftover)) s1 =
                     (Returned False, s', os')"
          unfolding isBehind_def leftover_def
          by (auto simp: Let_def split: if_splits prod.splits outcome.splits)
        note r = u_store_Returned [OF st pf]
        have l1: "length (u_sharedBuffer s1) = length (u_sharedBuffer s)" by (rule r(3))
        have "writable s1" using r(2) wr by simp
        moreover have "0 \<le> u_write s1"
          using r(4,6) pf by (simp add: PREFIX_SIZE_def)
        ultimately have "fst (Write POSTFIX_SIZE os sync (Some (slice_from d leftover)) s1)
                         \<noteq> Returned False"
          using Cons.IH [of s1 sync "slice_from d leftover"] Cons.prems(1) rest l1 by simp
        with more show ?thesis by simp
      next
        case False
        with small show ?thesis by simp
      qed
    qed
  qed
qed




subsection \<open>The cycle counter at a wrap\<close>

text \<open>
  Claim C3 says that a wrap stores the incremented cycle in \<^verbatim>\<open>WRITE_CYCLE\<close>. The code stores
  \<^verbatim>\<open>this._cycle++\<close>, the value before the increment. Here a fresh writer over 16 bytes writes
  ten bytes: a split frame fills the ring up to byte 15, the reader is then seen at 15, the
  writer wraps and writes the empty final frame. The call returns \<^verbatim>\<open>false\<close> with the local
  cycle at 1 and \<^verbatim>\<open>WRITE_CYCLE\<close> still 0.
\<close>

theorem C3_wrap_stores_previous_cycle:
  "case writeSync 0 [seen 0 0, seen 15 0, seen 15 0] (Some (ascii ''hello worl''))
          (new_Writable (replicate 16 0)) of
     (r, s', os') \<Rightarrow>
       r = Returned False \<and> frames s' = [(ascii ''hello worl'', 1), ([], 0)] \<and>
       u_cycle s' = 1 \<and> WRITE_CYCLE s' = 0"
  by (simp add: eval_defs)

subsection \<open>The order of the overflow queue\<close>

text \<open>
  Claim C4 says that queued payloads reach the ring in arrival order. In \<^verbatim>\<open>_drain\<close> a payload
  that meets backpressure again is appended by \<^verbatim>\<open>FakeWrite\<close> behind the payloads that arrived
  after it. On the stalled writer the queue holds the empty rest of the first payload, ten
  bytes \<^verbatim>\<open>A\<close> and one byte \<^verbatim>\<open>B\<close>. A drain with the reader seen at 15 writes five of the \<^verbatim>\<open>A\<close>
  in a frame marked as continued and queues the other five behind \<^verbatim>\<open>B\<close>; the next drain
  publishes \<^verbatim>\<open>B\<close> as a final frame right after that head.
\<close>

theorem C4_drain_requeues_behind:
  "u_extraBuffer stalled = [Some [], Some (ascii ''AAAAAAAAAA''), Some (ascii ''B'')] \<and>
   u_extraBuffer (after_calls 0 [Call_drain [seen 15 0, seen 15 0, seen 15 0]] stalled) =
     [Some (ascii ''B''), Some (ascii ''AAAAA'')] \<and>
   frames (after_calls 0 [Call_drain [seen 15 0, seen 15 0, seen 15 0],
                          Call_drain [seen 15 1, seen 15 1, seen 15 1, seen 15 1]] stalled) =
     [(ascii ''hello worl'', 1), ([], 0), (ascii ''AAAAA'', 1), (ascii ''B'', 0),
      (ascii ''AAAA'', 1)]"
  unfolding stalled_def
  by (simp add: eval_defs u_drain.simps)

subsection \<open>Faults of the write engine\<close>

text \<open>
  Claim C6, as amended. When the write engine is called on a writable writer and the fault
  condition holds, that is \<open>(behind ? READ_INDEX : |B|) < write_cursor\<close> or
  \<open>READ_CYCLE > cycle\<close>, the call throws to its caller: \<^verbatim>\<open>'overwritten'\<close> in the first case,
  \<^verbatim>\<open>'Read further than expected'\<close> otherwise. The writer is left as it was: it is not
  destroyed and nothing is emitted.
\<close>

theorem C6_fault_throws:
  assumes "writable s"
    and "(if READ_INDEX ob > u_write s \<or> READ_CYCLE ob < u_cycle s
          then READ_INDEX ob else int (length (u_sharedBuffer s))) < u_write s
         \<or> READ_CYCLE ob > u_cycle s"
  shows "Write POSTFIX_SIZE (ob # os) sync toWrite s =
           (Threw (if (if READ_INDEX ob > u_write s \<or> READ_CYCLE ob < u_cycle s
                       then READ_INDEX ob else int (length (u_sharedBuffer s))) < u_write s
                   then Overwritten else ReadFurther), s, os)"
  using assms by (auto simp: Let_def)

theorem C6_fault_throws_witness:
  "writable (new_Writable (replicate 16 0)) \<and>
   READ_CYCLE (seen 0 1) > u_cycle (new_Writable (replicate 16 0)) \<and>
   Write 0 [seen 0 1] False (Some (ascii ''AB'')) (new_Writable (replicate 16 0)) =
     (Threw ReadFurther, new_Writable (replicate 16 0), [])"
  using C6_fault_throws [of "new_Writable (replicate 16 0)" "seen 0 1" 0 "[]" False
      "Some (ascii ''AB'')"]
  by (simp add: new_Writable_def seen_def writable_def)

text \<open>
  The claim as stated fails: a fresh writer whose reader is seen in cycle 1 throws from
  \<^verbatim>\<open>write\<close>, is not destroyed afterwards and has emitted neither \<^verbatim>\<open>'error'\<close> nor \<^verbatim>\<open>'close'\<close>.
\<close>

theorem C6_fault_not_destroyed:
  "writable (new_Writable (replicate 16 0)) \<and>
   READ_CYCLE (seen 0 1) > u_cycle (new_Writable (replicate 16 0)) \<and>
   fst (write_entry 0 [seen 0 1] (Some (ascii ''AB'')) (new_Writable (replicate 16 0))) =
     Threw ReadFurther \<and>
   \<not> u_destroyed
       (fst (snd (write_entry 0 [seen 0 1] (Some (ascii ''AB''))
                   (new_Writable (replicate 16 0))))) \<and>
   emitted (fst (snd (write_entry 0 [seen 0 1] (Some (ascii ''AB''))
                        (new_Writable (replicate 16 0))))) = []"
  by (simp add: eval_defs)

subsection \<open>The orderly end\<close>

text \<open>
  Claim C7 says that the spin loop of \<^verbatim>\<open>end\<close> is left as soon as the reader is seen finished
  or failed. The loop condition \<^verbatim>\<open>status !== FAILED_SIGN || status !== FINISHED_SIGN\<close> always
  holds, so the loop only ends at the tenth spin. With the reader ready at entry and seen
  finished after the first wait the call is still waiting; when the tenth load returns the
  origin the writer is destroyed with the timeout error, whatever was seen before; and a
  reader that has finished before the call is reported as a timeout.
\<close>

theorem C7_end_spins_to_the_budget:
  "fst (end_w READY_SIGN [FINISHED_SIGN] readStatus (new_Writable B)) = Blocked \<and>
   emitted (snd (end_w READY_SIGN
       [FINISHED_SIGN, FINISHED_SIGN, FINISHED_SIGN, FINISHED_SIGN, FINISHED_SIGN,
        FINISHED_SIGN, FINISHED_SIGN, FINISHED_SIGN, FINISHED_SIGN, READY_SIGN]
       readStatus (new_Writable B))) = [Error FAILED_TO_FINISH_TIMEOUT, Close] \<and>
   emitted (snd (end_w FINISHED_SIGN
       [FINISHED_SIGN, FINISHED_SIGN, FINISHED_SIGN, FINISHED_SIGN, FINISHED_SIGN,
        FINISHED_SIGN, FINISHED_SIGN, FINISHED_SIGN, FINISHED_SIGN, FINISHED_SIGN]
       readStatus (new_Writable B))) = [Error FAILED_TO_FINISH_TIMEOUT, Close]"
  by (simp add: end_w_def end_spin.simps FINISH_SPINS_def new_Writable_def writable_def
        destroy_def emitted_def Let_def)

subsection \<open>The start of the watch\<close>

text \<open>
  Claim C8 says that \<^verbatim>\<open>synchronize\<close> starts the watch when the reader is ready at the first
  load. That branch sets \<^verbatim>\<open>_ready\<close>, emits \<^verbatim>\<open>'ready'\<close> and returns: \<^verbatim>\<open>_watching\<close> stays false,
  no callback is registered, and a call of \<^verbatim>\<open>_watch\<close> on the resulting writer returns at
  once. Only the reaction to the promise sets \<^verbatim>\<open>_watching\<close> and calls \<^verbatim>\<open>_watch\<close>.
\<close>

theorem C8_synchronize_ready_no_watch:
  "case synchronize READY_SIGN result readStatus (new_Writable B) of
     (r, s') \<Rightarrow>
       r = Returned () \<and> u_ready s' \<and> emitted s' = [Ready] \<and>
       \<not> u_watching s' \<and> callbacks s' = [] \<and> u_watch obs s' = (Returned (), s')"
  by (cases obs) (simp_all add: synchronize_def new_Writable_def emitted_def)

subsection \<open>\<^verbatim>\<open>destroy\<close> during an orderly end\<close>

text \<open>
  Claim C9. When \<^verbatim>\<open>_ending\<close> is set and \<^verbatim>\<open>_destroyed\<close> is not, \<^verbatim>\<open>destroy(err)\<close> changes nothing:
  no sign is stored in \<^verbatim>\<open>WRITE_PROCESS\<close>, the error is not recorded, nothing is emitted.
\<close>

theorem C9_destroy_while_ending:
  assumes "u_ending s" and "\<not> u_destroyed s"
  shows "destroy err readStatus s = s"
  using assms by (simp add: destroy_def writable_def)

lemma end_spin_ten:
  "end_spin [a1, a2, a3, a4, a5, a6, a7, a8, a9, a10] 0 st = Some a10"
  by (simp add: end_spin.simps FINISH_SPINS_def)

theorem C9_destroy_while_ending_witness:
  "u_ending finished_writer \<and> \<not> u_destroyed finished_writer \<and>
   destroy (Some READER_EXIT_WHILE_WATCH) FINISHED_SIGN finished_writer = finished_writer"
  using C9_destroy_while_ending [of finished_writer "Some READER_EXIT_WHILE_WATCH" FINISHED_SIGN]
  by (simp add: finished_writer_def end_w_def end_spin_ten new_Writable_def writable_def)

subsection \<open>Sequences of calls\<close>

lemma after_calls_snoc:
  "after_calls POSTFIX_SIZE (cs @ [c]) s =
   after_call POSTFIX_SIZE (after_calls POSTFIX_SIZE cs s) c"
  by (simp add: after_calls_def)

lemma after_writes_fake:
  "write_bound s = BoundFakeWrite \<Longrightarrow>
   after_calls POSTFIX_SIZE (writes ws) s = s\<lparr>u_extraBuffer := u_extraBuffer s @ map snd ws\<rparr>"
proof (induction ws rule: rev_induct)
  case Nil
  then show ?case by (simp add: after_calls_def writes_def)
next
  case (snoc w ws)
  then show ?case
    by (cases w) (simp add: writes_def after_calls_snoc write_entry_def FakeWrite_def)
qed

lemma destroy_write_bound: "write_bound (destroy err readStatus s) = write_bound s"
  by (simp add: destroy_def Let_def split: option.split)

subsection \<open>Backpressure and the \<^verbatim>\<open>'drain'\<close> event\<close>

text \<open>
  The write engine emits nothing and binds \<^verbatim>\<open>this.write\<close> to \<^verbatim>\<open>FakeWrite\<close> or leaves it; when
  it returns \<^verbatim>\<open>true\<close> the binding is \<^verbatim>\<open>FakeWrite\<close>.
\<close>

lemma u_store_quiet:
  "u_store POSTFIX_SIZE data isNotFin s = (r, s') \<Longrightarrow>
   emitted s' = emitted s \<and> write_bound s' = write_bound s"
  by (auto simp: u_store_def emitted_def Let_def split: sum.splits prod.splits)

lemma wrap_quiet: "emitted (wrap s) = emitted s \<and> write_bound (wrap s) = write_bound s"
  by (simp add: wrap_def emitted_def)

lemma emitted_queued:
  "emitted (s\<lparr>callbacks := c, write_bound := b, u_needDrain := n, u_extraBuffer := q\<rparr>) =
   emitted s"
  by (simp add: emitted_def)

lemma Write_emitted:
  "Write POSTFIX_SIZE os sync toWrite s = (r, s', os') \<Longrightarrow> emitted s' = emitted s"
proof (induction os arbitrary: sync toWrite s)
  case Nil
  then show ?case by (auto split: if_splits)
next
  case (Cons ob os)
  show ?case
  proof (cases "writable s")
    case False
    with Cons.prems show ?thesis by auto
  next
    case True
    with Cons.prems show ?thesis
      by (auto simp: Let_def FakeWrite_def wrap_quiet emitted_queued
               split: if_splits option.splits prod.splits outcome.splits
               dest!: Cons.IH u_store_quiet)
  qed
qed

lemma Write_bound:
  "Write POSTFIX_SIZE os sync toWrite s = (r, s', os') \<Longrightarrow>
   write_bound s' = write_bound s \<or> write_bound s' = BoundFakeWrite"
proof (induction os arbitrary: sync toWrite s)
  case Nil
  then show ?case by (auto split: if_splits)
next
  case (Cons ob os)
  show ?case
  proof (cases "writable s")
    case False
    with Cons.prems show ?thesis by auto
  next
    case True
    with Cons.prems show ?thesis
      by (auto simp: Let_def FakeWrite_def wrap_quiet
               split: if_splits option.splits prod.splits outcome.splits
               dest!: Cons.IH u_store_quiet)
  qed
qed

lemma Write_True_bound:
  "Write POSTFIX_SIZE os sync toWrite s = (Returned True, s', os') \<Longrightarrow>
   write_bound s' = BoundFakeWrite"
proof (induction os arbitrary: sync toWrite s)
  case Nil
  then show ?case by (auto split: if_splits)
next
  case (Cons ob os)
  show ?case
  proof (cases "writable s")
    case False
    with Cons.prems show ?thesis by auto
  next
    case True
    with Cons.prems show ?thesis
      by (auto simp: Let_def FakeWrite_def
               split: if_splits option.splits prod.splits outcome.splits
               dest!: Cons.IH)
  qed
qed

lemma u_drain_effects:
  "u_drain POSTFIX_SIZE os s = (r, s', os') \<Longrightarrow>
   (write_bound s' = BoundWrite \<and> emitted s' = emitted s @ [Drain]) \<or>
   (emitted s' = emitted s \<and>
    (write_bound s' = write_bound s \<or> write_bound s' = BoundFakeWrite) \<and>
    (r = Returned False \<longrightarrow> write_bound s' = BoundFakeWrite))"
proof (induction POSTFIX_SIZE os s arbitrary: r s' os' rule: u_drain.induct)
  case (1 POSTFIX_SIZE os s)
  define item where "item = (case u_extraBuffer s of [] \<Rightarrow> None | x # _ \<Rightarrow> x)"
  define s0 where "s0 = s\<lparr>u_extraBuffer := tl (u_extraBuffer s)\<rparr>"
  obtain r1 s1 os1 where w: "Write POSTFIX_SIZE os False item s0 = (r1, s1, os1)"
    by (cases "Write POSTFIX_SIZE os False item s0") auto
  have e1: "emitted s1 = emitted s"
    using Write_emitted [OF w] by (simp add: s0_def emitted_def)
  have b1: "write_bound s1 = write_bound s \<or> write_bound s1 = BoundFakeWrite"
    using Write_bound [OF w] by (simp add: s0_def)
  note run = "1.prems" [unfolded u_drain.simps [of POSTFIX_SIZE os s] Let_def,
      folded item_def s0_def, unfolded w]
  show ?case
  proof (cases r1)
    case (Returned status)
    show ?thesis
    proof (cases status)
      case True
      with Returned run have "r = Returned False" "s' = s1" by simp_all
      moreover from w Returned True have "write_bound s1 = BoundFakeWrite"
        by (simp add: Write_True_bound)
      ultimately show ?thesis using e1 by simp
    next
      case False
      show ?thesis
      proof (cases "u_extraBuffer s1 = []")
        case True
        with Returned False run have "s' = s1\<lparr>write_bound := BoundWrite, u_needDrain := False,
                      log := log s1 @ [Emit Drain]\<rparr>" by simp
        then show ?thesis using e1 by (simp add: emitted_def)
      next
        case ne: False
        with Returned False run have rec: "u_drain POSTFIX_SIZE os1 s1 = (r, s', os')" by simp
        have "(write_bound s' = BoundWrite \<and> emitted s' = emitted s1 @ [Drain]) \<or>
              (emitted s' = emitted s1 \<and>
               (write_bound s' = write_bound s1 \<or> write_bound s' = BoundFakeWrite) \<and>
               (r = Returned False \<longrightarrow> write_bound s' = BoundFakeWrite))"
          using "1.IH" [OF item_def s0_def w [symmetric] Returned refl _ ne rec] False
          by simp
        then show ?thesis using e1 b1 by auto
      qed
    qed
  next
    case (Threw e)
    with run have "s' = s1" by simp
    then show ?thesis using e1 b1 Threw run by auto
  next
    case Blocked
    with run have "s' = s1" by simp
    then show ?thesis using e1 b1 Blocked run by auto
  qed
qed

lemma destroy_drains: "drains (destroy err readStatus s) = drains s"
  by (simp add: destroy_def drains_def emitted_def Let_def split: option.split)

lemma end_w_quiet:
  "write_bound (snd (end_w status0 loads readStatus s)) = write_bound s \<and>
   drains (snd (end_w status0 loads readStatus s)) = drains s"
proof (cases "writable s")
  case False
  then show ?thesis by (simp add: end_w_def)
next
  case True
  define s1 where "s1 = s\<lparr>u_process := FINISHING_SIGN, u_watching := False, u_ending := True\<rparr>"
  define s2 where "s2 =
    (if status0 = READY_SIGN \<or> status0 = EMPTY_SIGN \<or> status0 = FINISHING_SIGN
     then s1\<lparr>WRITE_PROCESS := FINISHING_SIGN, log := log s1 @ [Notify WRITE_PROCESS_slot]\<rparr>
     else s1)"
  have q2: "write_bound s2 = write_bound s" "drains s2 = drains s"
    by (simp_all add: s2_def s1_def drains_def emitted_def)
  have e: "end_w status0 loads readStatus s =
    (case end_spin loads 0 status0 of
       None \<Rightarrow> (Blocked, s2)
     | Some status \<Rightarrow>
         if status = FAILED_SIGN \<or> status = status0 then
           (if status = status0
            then (Returned (), destroy (Some FAILED_TO_FINISH_TIMEOUT) readStatus
                                 (s2\<lparr>u_ending := False\<rparr>))
            else (Returned (), destroy (Some FAILED_TO_FINISH_READER) readStatus
                                 (s2\<lparr>u_ending := False\<rparr>)))
         else
           (Returned (),
            s2\<lparr>WRITE_PROCESS := FINISHED_SIGN, u_process := FINISHED_SIGN,
               u_finished := True, u_ended := True,
               log := log s2 @ [Notify WRITE_PROCESS_slot, Emit Finish]\<rparr>))"
    using True unfolding end_w_def Let_def s2_def s1_def by simp
  have q3: "write_bound (s2\<lparr>u_ending := False\<rparr>) = write_bound s"
    "drains (s2\<lparr>u_ending := False\<rparr>) = drains s"
    using q2 by (simp_all add: drains_def emitted_def)
  have q4: "write_bound (s2\<lparr>WRITE_PROCESS := FINISHED_SIGN, u_process := FINISHED_SIGN,
               u_finished := True, u_ended := True,
               log := log s2 @ [Notify WRITE_PROCESS_slot, Emit Finish]\<rparr>) = write_bound s"
    "drains (s2\<lparr>WRITE_PROCESS := FINISHED_SIGN, u_process := FINISHED_SIGN,
               u_finished := True, u_ended := True,
               log := log s2 @ [Notify WRITE_PROCESS_slot, Emit Finish]\<rparr>) = drains s"
    using q2 by (simp_all add: drains_def emitted_def)
  show ?thesis
    unfolding e
    by (simp only: q2 q3 q4 destroy_write_bound destroy_drains snd_conv
          split: option.split if_split) simp
qed

lemma callbacks_quiet:
  "write_bound (s\<lparr>callbacks := c\<rparr>) = write_bound s \<and> drains (s\<lparr>callbacks := c\<rparr>) = drains s"
  by (simp add: drains_def emitted_def)

lemma synchronize_quiet:
  "write_bound (snd (synchronize status result readStatus s)) = write_bound s \<and>
   drains (snd (synchronize status result readStatus s)) = drains s"
proof -
  define s1 where "s1 = s\<lparr>u_process := READY_SIGN, WRITE_PROCESS := READY_SIGN\<rparr>"
  have q1: "write_bound s1 = write_bound s" "drains s1 = drains s"
    by (simp_all add: s1_def drains_def emitted_def)
  have q2: "write_bound (s1\<lparr>u_ready := True, log := log s1 @ [Emit Ready]\<rparr>) = write_bound s"
    "drains (s1\<lparr>u_ready := True, log := log s1 @ [Emit Ready]\<rparr>) = drains s"
    using q1 by (simp_all add: drains_def emitted_def)
  have q3: "write_bound (s1\<lparr>callbacks := callbacks s1 @ [ThenSynchronize]\<rparr>) = write_bound s"
    "drains (s1\<lparr>callbacks := callbacks s1 @ [ThenSynchronize]\<rparr>) = drains s"
    using q1 by (simp_all add: callbacks_quiet)
  show ?thesis
    unfolding synchronize_def Let_def s1_def [symmetric]
    by (simp only: q1 q2 q3 destroy_write_bound destroy_drains snd_conv
          split: wait_async.split if_split) simp
qed

lemma u_watch_quiet:
  "write_bound (snd (u_watch obs s)) = write_bound s \<and> drains (snd (u_watch obs s)) = drains s"
proof (induction obs arbitrary: s)
  case Nil
  then show ?case by simp
next
  case (Cons ob obs)
  show ?case
  proof (cases "u_watching s")
    case False
    then show ?thesis by simp
  next
    case w: True
    show ?thesis
    proof (cases "watch_status ob = FINISHING_SIGN \<and> u_extraBuffer s = []")
      case True
      with w show ?thesis by (simp add: end_w_quiet)
    next
      case False
      define s1 where "s1 = (if watch_status ob = FINISHING_SIGN
                      then s\<lparr>callbacks := callbacks s @ [OnceDrainEnd]\<rparr> else s)"
      have q1: "write_bound s1 = write_bound s" "drains s1 = drains s"
        by (simp_all add: s1_def callbacks_quiet)
      have e: "u_watch (ob # obs) s =
        (if watch_status ob = FAILED_SIGN \<or> watch_status ob = FINISHED_SIGN then
           (Returned (), destroy (Some READER_EXIT_WHILE_WATCH) (destroy_status ob) s1)
         else if \<not> watch_async ob then u_watch obs s1
         else (Returned (), s1\<lparr>callbacks := callbacks s1 @ [ThenWatch]\<rparr>))"
        using w False unfolding s1_def by (auto simp: Let_def)
      show ?thesis
        unfolding e using q1 Cons.IH [of s1]
        by (simp add: destroy_write_bound destroy_drains callbacks_quiet)
    qed
  qed
qed

lemma synchronize_then_quiet:
  "write_bound (snd (synchronize_then v status readStatus obs s)) = write_bound s \<and>
   drains (snd (synchronize_then v status readStatus obs s)) = drains s"
proof -
  define s2 where "s2 = s\<lparr>u_watching := True, u_ready := True,
                          log := log s @ [Emit Ready]\<rparr>"
  have q: "write_bound s2 = write_bound s" "drains s2 = drains s"
    by (simp_all add: s2_def drains_def emitted_def)
  have e: "synchronize_then v status readStatus obs s =
     (if v \<noteq> Ok then (Returned (), destroy (Some READER_FAILED_TIMEOUT) readStatus s)
      else if status \<noteq> READY_SIGN then
        (Returned (), destroy (Some READER_EXIT_AT_SYNC) readStatus s)
      else u_watch obs s2)"
    by (simp add: synchronize_then_def Let_def s2_def)
  show ?thesis
    unfolding e using q u_watch_quiet [of obs s2]
    by (simp add: destroy_write_bound destroy_drains)
qed

text \<open>
  One call on a writer whose \<^verbatim>\<open>write\<close> is bound to \<^verbatim>\<open>FakeWrite\<close>: either the binding stays
  and no \<^verbatim>\<open>'drain'\<close> is emitted, or the call is \<^verbatim>\<open>_drain\<close>, the binding is the engine again and
  the call has emitted \<^verbatim>\<open>'drain'\<close> once and nothing else.
\<close>

lemma after_call_fake:
  assumes "write_bound s = BoundFakeWrite"
  shows "(write_bound (after_call POSTFIX_SIZE s c) = BoundFakeWrite \<and>
          drains (after_call POSTFIX_SIZE s c) = drains s) \<or>
         ((\<exists>os. c = Call_drain os) \<and> write_bound (after_call POSTFIX_SIZE s c) = BoundWrite \<and>
          emitted (after_call POSTFIX_SIZE s c) = emitted s @ [Drain])"
proof (cases c)
  case (Call_write os data)
  with assms show ?thesis
    by (simp add: write_entry_def FakeWrite_def drains_def emitted_def)
next
  case (Call_writeSync os data)
  obtain r s' os' where w: "Write POSTFIX_SIZE os True data s = (r, s', os')"
    by (cases "Write POSTFIX_SIZE os True data s") auto
  from Write_emitted [OF w] Write_bound [OF w] assms Call_writeSync w show ?thesis
    by (simp add: writeSync_def drains_def)
next
  case (Call_drain os)
  obtain r s' os' where d: "u_drain POSTFIX_SIZE os s = (r, s', os')"
    by (cases "u_drain POSTFIX_SIZE os s") auto
  from u_drain_effects [OF d] assms Call_drain d show ?thesis
    by (auto simp: drains_def)
next
  case (Call_end status0 loads readStatus)
  with assms end_w_quiet [of status0 loads readStatus s] show ?thesis by simp
next
  case (Call_destroy err readStatus)
  with assms show ?thesis by (simp add: destroy_write_bound destroy_drains)
next
  case (Call_synchronize status result readStatus)
  with assms synchronize_quiet [of status result readStatus s] show ?thesis by simp
next
  case (Call_synchronize_then v status readStatus obs)
  with assms synchronize_then_quiet [of v status readStatus obs s] show ?thesis by simp
next
  case (Call_watch obs)
  with assms u_watch_quiet [of obs s] show ?thesis by simp
qed

lemma after_call_drains_mono: "drains s \<le> drains (after_call POSTFIX_SIZE s c)"
proof (cases c)
  case (Call_write os data)
  obtain r s' os' where w: "Write POSTFIX_SIZE os False data s = (r, s', os')"
    by (cases "Write POSTFIX_SIZE os False data s") auto
  from Write_emitted [OF w] Call_write w show ?thesis
    by (cases "write_bound s")
       (simp_all add: write_entry_def FakeWrite_def drains_def emitted_def)
next
  case (Call_writeSync os data)
  obtain r s' os' where w: "Write POSTFIX_SIZE os True data s = (r, s', os')"
    by (cases "Write POSTFIX_SIZE os True data s") auto
  from Write_emitted [OF w] Call_writeSync w show ?thesis
    by (simp add: writeSync_def drains_def)
next
  case (Call_drain os)
  obtain r s' os' where d: "u_drain POSTFIX_SIZE os s = (r, s', os')"
    by (cases "u_drain POSTFIX_SIZE os s") auto
  from u_drain_effects [OF d] Call_drain d show ?thesis
    by (auto simp: drains_def)
next
  case (Call_end status0 loads readStatus)
  with end_w_quiet [of status0 loads readStatus s] show ?thesis by simp
next
  case (Call_destroy err readStatus)
  then show ?thesis by (simp add: destroy_drains)
next
  case (Call_synchronize status result readStatus)
  with synchronize_quiet [of status result readStatus s] show ?thesis by simp
next
  case (Call_synchronize_then v status readStatus obs)
  with synchronize_then_quiet [of v status readStatus obs s] show ?thesis by simp
next
  case (Call_watch obs)
  with u_watch_quiet [of obs s] show ?thesis by simp
qed

lemma after_calls_drains_mono: "drains s \<le> drains (after_calls POSTFIX_SIZE cs s)"
proof (induction cs rule: rev_induct)
  case Nil
  then show ?case by (simp add: after_calls_def)
next
  case (snoc c cs)
  from snoc after_call_drains_mono [of "after_calls POSTFIX_SIZE cs s" POSTFIX_SIZE c]
  show ?case by (simp add: after_calls_snoc)
qed

lemma after_calls_fake:
  assumes "write_bound s = BoundFakeWrite"
    and "drains (after_calls POSTFIX_SIZE cs s) = drains s"
  shows "write_bound (after_calls POSTFIX_SIZE cs s) = BoundFakeWrite"
  using assms(2)
proof (induction cs rule: rev_induct)
  case Nil
  with assms(1) show ?case by (simp add: after_calls_def)
next
  case (snoc c cs)
  let ?t = "after_calls POSTFIX_SIZE cs s"
  have le: "drains s \<le> drains ?t" by (rule after_calls_drains_mono)
  have le2: "drains ?t \<le> drains (after_call POSTFIX_SIZE ?t c)"
    by (rule after_call_drains_mono)
  from snoc.prems le le2 have eq: "drains ?t = drains s"
    and eq2: "drains (after_call POSTFIX_SIZE ?t c) = drains ?t"
    by (simp_all add: after_calls_snoc)
  from snoc.IH [OF eq] have f: "write_bound ?t = BoundFakeWrite" .
  from after_call_fake [OF f, of POSTFIX_SIZE c] eq2 show ?case
    by (auto simp: after_calls_snoc drains_def)
qed

text \<open>
  Claim C5. Let a call of \<^verbatim>\<open>write\<close> return \<^verbatim>\<open>true\<close>. Then \<^verbatim>\<open>write\<close> is bound to \<^verbatim>\<open>FakeWrite\<close>;
  after any sequence of calls on the writer (public methods and callbacks, with any
  observations) during which no \<^verbatim>\<open>'drain'\<close> has been emitted, every call of \<^verbatim>\<open>write\<close> returns
  \<^verbatim>\<open>true\<close>; and the one call that binds \<^verbatim>\<open>write\<close> to the engine again is \<^verbatim>\<open>_drain\<close>, which emits
  \<^verbatim>\<open>'drain'\<close> exactly once in doing so.
\<close>

theorem C5_backpressure_law:
  assumes "write_entry POSTFIX_SIZE os p s0 = (Returned True, s, os')"
  shows "write_bound s = BoundFakeWrite \<and>
         (\<forall>cs os1 q. drains (after_calls POSTFIX_SIZE cs s) = drains s \<longrightarrow>
            fst (write_entry POSTFIX_SIZE os1 q (after_calls POSTFIX_SIZE cs s)) = Returned True) \<and>
         (\<forall>cs c. drains (after_calls POSTFIX_SIZE cs s) = drains s \<and>
            write_bound (after_call POSTFIX_SIZE (after_calls POSTFIX_SIZE cs s) c) = BoundWrite \<longrightarrow>
            (\<exists>os1. c = Call_drain os1) \<and>
            emitted (after_call POSTFIX_SIZE (after_calls POSTFIX_SIZE cs s) c) =
              emitted (after_calls POSTFIX_SIZE cs s) @ [Drain])"
proof -
  have b: "write_bound s = BoundFakeWrite"
  proof (cases "write_bound s0")
    case BoundWrite
    with assms show ?thesis by (simp add: write_entry_def Write_True_bound)
  next
    case BoundFakeWrite
    with assms show ?thesis by (auto simp: write_entry_def FakeWrite_def)
  qed
  have w: "fst (write_entry POSTFIX_SIZE os1 q (after_calls POSTFIX_SIZE cs s)) = Returned True"
    if "drains (after_calls POSTFIX_SIZE cs s) = drains s" for cs os1 q
    using after_calls_fake [OF b that] by (simp add: write_entry_def FakeWrite_def)
  have d: "(\<exists>os1. c = Call_drain os1) \<and>
            emitted (after_call POSTFIX_SIZE (after_calls POSTFIX_SIZE cs s) c) =
              emitted (after_calls POSTFIX_SIZE cs s) @ [Drain]"
    if "drains (after_calls POSTFIX_SIZE cs s) = drains s"
      and "write_bound (after_call POSTFIX_SIZE (after_calls POSTFIX_SIZE cs s) c) = BoundWrite"
    for cs c
    using after_call_fake [OF after_calls_fake [OF b that(1)], of POSTFIX_SIZE c] that(2)
    by auto
  from b w d show ?thesis by blast
qed

theorem C5_backpressure_law_witness:
  "fst (write_entry 0 [seen 0 0, seen 0 0, seen 0 0] (Some (ascii ''hello worl''))
          (new_Writable (replicate 16 0))) = Returned True \<and>
   write_bound held = BoundFakeWrite \<and>
   drains (after_calls 0 (writes [([], Some (ascii ''A'')), ([], Some (ascii ''B''))]) held) =
     drains held \<and>
   fst (write_entry 0 [seen 15 0] (Some (ascii ''C''))
          (after_calls 0 (writes [([], Some (ascii ''A'')), ([], Some (ascii ''B''))]) held)) =
     Returned True \<and>
   write_bound (after_call 0 held (Call_drain [seen 15 0])) = BoundWrite \<and>
   emitted (after_call 0 held (Call_drain [seen 15 0])) = emitted held @ [Drain]"
proof -
  have p: "write_entry 0 [seen 0 0, seen 0 0, seen 0 0] (Some (ascii ''hello worl''))
             (new_Writable (replicate 16 0)) = (Returned True, held, [])"
    unfolding held_def by (simp add: eval_defs)
  note law = C5_backpressure_law [OF p]
  have b: "write_bound held = BoundFakeWrite" using law by blast
  have q: "drains (after_calls 0 (writes [([], Some (ascii ''A'')), ([], Some (ascii ''B''))]) held)
           = drains held"
    using b by (simp add: after_writes_fake drains_def emitted_def)
  have w: "fst (write_entry 0 [seen 15 0] (Some (ascii ''C''))
          (after_calls 0 (writes [([], Some (ascii ''A'')), ([], Some (ascii ''B''))]) held)) =
     Returned True"
    using law q by blast
  have r: "write_bound (after_call 0 held (Call_drain [seen 15 0])) = BoundWrite"
    unfolding held_def by (simp add: eval_defs u_drain.simps)
  have z: "drains (after_calls 0 [] held) = drains held"
    by (simp add: after_calls_def)
  have e: "emitted (after_call 0 (after_calls 0 [] held) (Call_drain [seen 15 0])) =
           emitted (after_calls 0 [] held) @ [Drain]"
    using law z r by (metis after_calls_def foldl_Nil)
  from p b q w r e show ?thesis by (simp add: after_calls_def)
qed

subsection \<open>The buffering stub after \<^verbatim>\<open>destroy\<close>\<close>

text \<open>
  Claim C10, as amended. Once \<^verbatim>\<open>this.write\<close> is bound to \<^verbatim>\<open>FakeWrite\<close>, \<^verbatim>\<open>destroy\<close> leaves it
  bound so; and after any sequence of calls on the writer that follows the \<^verbatim>\<open>destroy\<close>
  (public methods and callbacks, with any observations) and has emitted no \<^verbatim>\<open>'drain'\<close>, a call
  of \<^verbatim>\<open>write\<close> returns \<^verbatim>\<open>true\<close> and appends its payload to the overflow queue, changing nothing
  else. The stub makes no \<^verbatim>\<open>writable\<close> check.
\<close>

theorem C10_fake_write_survives_destroy:
  assumes "write_bound s = BoundFakeWrite"
  shows "write_bound (destroy err readStatus s) = BoundFakeWrite \<and>
         (\<forall>cs os data.
            drains (after_calls POSTFIX_SIZE cs (destroy err readStatus s)) =
              drains (destroy err readStatus s) \<longrightarrow>
            write_entry POSTFIX_SIZE os data
              (after_calls POSTFIX_SIZE cs (destroy err readStatus s)) =
            (Returned True,
             (after_calls POSTFIX_SIZE cs (destroy err readStatus s))
               \<lparr>u_extraBuffer :=
                  u_extraBuffer (after_calls POSTFIX_SIZE cs (destroy err readStatus s))
                  @ [data]\<rparr>,
             os))"
proof -
  have b: "write_bound (destroy err readStatus s) = BoundFakeWrite"
    using assms by (simp add: destroy_write_bound)
  have "write_entry POSTFIX_SIZE os data
              (after_calls POSTFIX_SIZE cs (destroy err readStatus s)) =
            (Returned True,
             (after_calls POSTFIX_SIZE cs (destroy err readStatus s))
               \<lparr>u_extraBuffer :=
                  u_extraBuffer (after_calls POSTFIX_SIZE cs (destroy err readStatus s))
                  @ [data]\<rparr>,
             os)"
    if "drains (after_calls POSTFIX_SIZE cs (destroy err readStatus s)) =
          drains (destroy err readStatus s)" for cs os data
    using after_calls_fake [OF b that] by (simp add: write_entry_def FakeWrite_def)
  with b show ?thesis by blast
qed

theorem C10_fake_write_survives_destroy_witness:
  "write_bound stalled = BoundFakeWrite \<and>
   u_destroyed (destroy None FAILED_SIGN stalled) \<and>
   write_bound (destroy None FAILED_SIGN stalled) = BoundFakeWrite \<and>
   drains (after_calls 0 (writes [([], Some (ascii ''C''))]) (destroy None FAILED_SIGN stalled)) =
     drains (destroy None FAILED_SIGN stalled) \<and>
   fst (write_entry 0 [] (Some (ascii ''D''))
          (after_calls 0 (writes [([], Some (ascii ''C''))])
             (destroy None FAILED_SIGN stalled))) = Returned True \<and>
   u_extraBuffer (fst (snd (write_entry 0 [] (Some (ascii ''D''))
          (after_calls 0 (writes [([], Some (ascii ''C''))])
             (destroy None FAILED_SIGN stalled))))) =
     [Some [], Some (ascii ''AAAAAAAAAA''), Some (ascii ''B''), Some (ascii ''C''),
      Some (ascii ''D'')]"
proof -
  have b: "write_bound stalled = BoundFakeWrite"
    unfolding stalled_def by (simp add: eval_defs)
  have w: "u_destroyed (destroy None FAILED_SIGN stalled)"
    unfolding stalled_def by (simp add: destroy_def eval_defs)
  have q: "u_extraBuffer stalled = [Some [], Some (ascii ''AAAAAAAAAA''), Some (ascii ''B'')]"
    unfolding stalled_def by (simp add: eval_defs)
  have e: "u_extraBuffer (destroy None FAILED_SIGN stalled) = u_extraBuffer stalled"
    by (simp add: destroy_def Let_def)
  note law = C10_fake_write_survives_destroy [OF b, of None FAILED_SIGN 0]
  have bd: "write_bound (destroy None FAILED_SIGN stalled) = BoundFakeWrite"
    using law by blast
  have aw: "after_calls 0 (writes [([], Some (ascii ''C''))]) (destroy None FAILED_SIGN stalled) =
            (destroy None FAILED_SIGN stalled)
              \<lparr>u_extraBuffer := u_extraBuffer (destroy None FAILED_SIGN stalled)
                                 @ [Some (ascii ''C'')]\<rparr>"
    using after_writes_fake [OF bd, of 0 "[([], Some (ascii ''C''))]"] by simp
  have dr: "drains (after_calls 0 (writes [([], Some (ascii ''C''))])
                      (destroy None FAILED_SIGN stalled)) =
            drains (destroy None FAILED_SIGN stalled)"
    unfolding aw by (simp add: drains_def emitted_def)
  have r: "write_entry 0 [] (Some (ascii ''D''))
          (after_calls 0 (writes [([], Some (ascii ''C''))])
             (destroy None FAILED_SIGN stalled)) =
        (Returned True,
         (after_calls 0 (writes [([], Some (ascii ''C''))]) (destroy None FAILED_SIGN stalled))
           \<lparr>u_extraBuffer :=
              u_extraBuffer (after_calls 0 (writes [([], Some (ascii ''C''))])
                               (destroy None FAILED_SIGN stalled))
              @ [Some (ascii ''D'')]\<rparr>, [])"
    using law dr by blast
  show ?thesis
    using b w bd dr by (simp add: r) (simp add: aw e q)
qed

text \<open>
  The claim as stated fails: the stub does not hold for every later call. On the stalled
  writer, destroyed, the reaction to the promise runs \<^verbatim>\<open>_drain\<close>; every \<^verbatim>\<open>Write\<close> returns
  \<^verbatim>\<open>false\<close> at the \<^verbatim>\<open>writable\<close> check, so the queue is emptied without a byte written,
  \<^verbatim>\<open>this.write\<close> is bound to the engine again and \<^verbatim>\<open>'drain'\<close> is emitted. The next call of
  \<^verbatim>\<open>write\<close> returns \<^verbatim>\<open>false\<close> and queues nothing.
\<close>

theorem C10_drain_unbinds_destroyed:
  "write_bound stalled = BoundFakeWrite \<and>
   u_destroyed (destroy None FAILED_SIGN stalled) \<and>
   write_bound (after_calls 0 [Call_drain []] (destroy None FAILED_SIGN stalled)) = BoundWrite \<and>
   frames (after_calls 0 [Call_drain []] (destroy None FAILED_SIGN stalled)) = frames stalled \<and>
   emitted (after_calls 0 [Call_drain []] (destroy None FAILED_SIGN stalled)) = [Close, Drain] \<and>
   fst (write_entry 0 [] (Some (ascii ''C''))
          (after_calls 0 [Call_drain []] (destroy None FAILED_SIGN stalled))) = Returned False \<and>
   u_extraBuffer (fst (snd (write_entry 0 [] (Some (ascii ''C''))
          (after_calls 0 [Call_drain []] (destroy None FAILED_SIGN stalled))))) = []"
  unfolding stalled_def
  by (simp add: destroy_def eval_defs u_drain.simps)

end
